theory Spec2Isabelle
  imports Main "HOL-Library.Multiset"
begin

section \<open>Schema nodes\<close>

text \<open>
  Modelled from the spec: the type \<open>yang.Entry\<close> of the schema-loading library is
  not part of \<open>genutil/common.go\<close>. The spec's data model (section 3, SchemaNode) gives a
  node a name, a kind out of six, a tri-state config visibility, its declared children in
  declaration order and a path built from its ancestor chain.
\<close>

datatype NodeKind = Leaf | LeafRef | Container | List | Choice | Case

datatype TriState = ExplicitlyWritable | ExplicitlyReadOnly | Inherited

text \<open>
  Modelled from the spec: \<open>Name\<close>, \<open>Kind\<close>, \<open>Config\<close> and \<open>Dir\<close> are the spec's
  \<open>name\<close>, \<open>kind\<close>, \<open>configVisible\<close> and \<open>children\<close>. The Go value is a pointer into
  a tree with parent links; \<open>Parents\<close> is the chain of ancestors that those links reach,
  nearest first, each with its name (for the path) and its config visibility (for the
  inheritance).
\<close>

datatype Entry = Entry
  (Name: string)
  (Kind: NodeKind)
  (Config: TriState)
  (Parents: "(string \<times> TriState) list")
  (Dir: "Entry list")

text \<open>
  Modelled from the spec: the kind tests \<open>IsContainer\<close> and \<open>IsList\<close> of the schema
  library and \<open>util.IsChoiceOrCase\<close> are missing; they read the spec's \<open>kind\<close>, and
  the source's test \<open>Type.Kind == yang.Yleafref\<close> is \<open>Kind c = LeafRef\<close>.
\<close>

definition IsContainer :: "Entry \<Rightarrow> bool" where
  "IsContainer e = (Kind e = Container)"

definition IsList :: "Entry \<Rightarrow> bool" where
  "IsList e = (Kind e = List)"

definition IsChoiceOrCase :: "Entry \<Rightarrow> bool" where
  "IsChoiceOrCase e = (Kind e = Choice \<or> Kind e = Case)"

text \<open>
  Modelled from the spec: \<open>IsDir\<close> of the schema library is missing; the spec (4.2, rule 3)
  calls a directory a node of kind Container, List, Choice or Case.
\<close>

definition IsDir :: "Entry \<Rightarrow> bool" where
  "IsDir e = (Kind e = Container \<or> Kind e = List \<or> Kind e = Choice \<or> Kind e = Case)"

text \<open>
  Modelled from the spec: \<open>util.IsConfigState\<close> is missing; the spec (4.2, rule 2) has
  "a container literally named config or state".
\<close>

definition IsConfigState :: "Entry \<Rightarrow> bool" where
  "IsConfigState e = (IsContainer e \<and> (Name e = ''config'' \<or> Name e = ''state''))"

text \<open>
  Modelled from the spec: \<open>util.IsConfig\<close> is missing; the spec (section 3) says that an
  inherited visibility is that of the nearest ancestor with an explicit value and that the
  root is implicitly writable.
\<close>

fun effective :: "TriState list \<Rightarrow> bool" where
  "effective [] = True"
| "effective (ExplicitlyWritable # cs) = True"
| "effective (ExplicitlyReadOnly # cs) = False"
| "effective (Inherited # cs) = effective cs"

definition IsConfig :: "Entry \<Rightarrow> bool" where
  "IsConfig e = effective (Config e # map snd (Parents e))"

text \<open>
  Modelled from the spec: \<open>Path\<close> of the schema library is missing; the spec has a
  "slash-separated ancestor chain", here every element from the root down to the node
  itself, each behind a slash.
\<close>

definition Path :: "Entry \<Rightarrow> string" where
  "Path e = concat (map (\<lambda>n. ''/'' @ n) (rev (map fst (Parents e)) @ [Name e]))"

text \<open>
  Modelled from the spec: \<open>util.Children\<close> is missing; the spec iterates "the node's
  declared children in order".
\<close>

definition Children :: "Entry \<Rightarrow> Entry list" where
  "Children e = Dir e"

text \<open>
  The Go expression \<open>e.Dir[k]\<close>. In the source \<open>Dir\<close> is a map from the local name to
  the child; here it is the list of the children in declaration order, each stored under
  its own \<open>Name\<close>. The lookup gives the child stored under \<open>k\<close>, and \<open>None\<close>
  for Go's nil when there is none.
\<close>

definition DirAt :: "Entry \<Rightarrow> string \<Rightarrow> Entry option" where
  "DirAt e k = find (\<lambda>c. Name c = k) (Dir e)"

text \<open>
  Modelled from the spec: \<open>util.FindFirstNonChoiceOrCase\<close> is missing; the spec (4.3)
  descends through Choice and Case nodes and collects on every branch the first
  descendants that are neither, in declaration order.
\<close>

fun FindFirstNonChoiceOrCase :: "Entry \<Rightarrow> Entry list" where
  "FindFirstNonChoiceOrCase (Entry n k c ps d) =
     concat (map (\<lambda>ch. if IsChoiceOrCase ch then FindFirstNonChoiceOrCase ch else [ch]) d)"

section \<open>The policy model\<close>

text \<open>
  The five constants of lines 106 to 121. The source declares them over \<open>int64\<close>; the
  spec calls the policy a closed enumeration, and so does the model.
\<close>

datatype CompressBehaviour =
    Uncompressed
  | UncompressedExcludeDerivedState
  | PreferIntendedConfig
  | PreferOperationalState
  | ExcludeDerivedState

fun CompressEnabled :: "CompressBehaviour \<Rightarrow> bool" where
  "CompressEnabled Uncompressed = False"
| "CompressEnabled UncompressedExcludeDerivedState = False"
| "CompressEnabled c = True"

fun StateExcluded :: "CompressBehaviour \<Rightarrow> bool" where
  "StateExcluded ExcludeDerivedState = True"
| "StateExcluded UncompressedExcludeDerivedState = True"
| "StateExcluded c = False"

definition TranslateToCompressBehaviour :: "bool \<Rightarrow> bool \<Rightarrow> CompressBehaviour" where
  "TranslateToCompressBehaviour compressPaths excludeState =
     (if compressPaths \<and> excludeState then ExcludeDerivedState
      else if compressPaths then PreferIntendedConfig
      else if excludeState then UncompressedExcludeDerivedState
      else Uncompressed)"

section \<open>The duplicate guard and the flattening helpers\<close>

text \<open>
  The result mapping \<open>map[string]*yang.Entry\<close>, and the three helpers of lines 405 to
  446. The source updates the map in place and returns the error slice; the model returns
  both. An error is its message.
\<close>

type_synonym children = "string \<rightharpoonup> Entry"

definition addNewChild ::
  "children \<Rightarrow> string \<Rightarrow> Entry \<Rightarrow> string list \<Rightarrow> children \<times> string list" where
  "addNewChild m k v errs =
     (if m k = None then (m(k \<mapsto> v), errs)
      else (m, errs @ [Path v @ '' was duplicate'']))"

definition addNonChoiceChildren ::
  "children \<Rightarrow> Entry \<Rightarrow> string list \<Rightarrow> children \<times> string list" where
  "addNonChoiceChildren m e errs =
     fold (\<lambda>n (m, errs). addNewChild m (Name n) n errs) (FindFirstNonChoiceOrCase e) (m, errs)"

definition addNonChoiceChildrenDuplist ::
  "children \<Rightarrow> Entry \<Rightarrow> string set \<Rightarrow> string list \<Rightarrow> children \<times> string list" where
  "addNonChoiceChildrenDuplist m e duplist errs =
     fold (\<lambda>n (m, errs). if Name n \<in> duplist then (m, errs)
                          else addNewChild m (Name n) n errs)
       (FindFirstNonChoiceOrCase e) (m, errs)"

section \<open>The child resolver\<close>

text \<open>Lines 76 to 95: the uncompressed path.\<close>

definition findAllChildrenWithoutCompression ::
  "Entry \<Rightarrow> bool \<Rightarrow> children \<times> string list" where
  "findAllChildrenWithoutCompression e excludeState =
     fold (\<lambda>child (directChildren, errs).
             if excludeState \<and> \<not> IsConfig child then (directChildren, errs)
             else if IsChoiceOrCase child then addNonChoiceChildren directChildren child errs
             else addNewChild directChildren (Name child) child errs)
       (Children e) (Map.empty, [])"

text \<open>
  The names of the children in the order in which the compressed path processes them
  (lines 285 to 296 of the source).
\<close>

definition orderedChildNames :: "Entry \<Rightarrow> string \<Rightarrow> string list" where
  "orderedChildNames e prioData =
     (if (IsContainer e \<or> IsList e) \<and> DirAt e prioData \<noteq> None then [prioData] else [])
     @ map Name (filter (\<lambda>child. Name child \<noteq> prioData) (Children e))"

text \<open>
  The state of the main loop: the direct children found so far, the whitelist
  \<open>prioNames\<close> and the errors.
\<close>

type_synonym resolver_state = "children \<times> string set \<times> string list"

text \<open>The body of the loop over the children of a config or state container.\<close>

definition configStateStep ::
  "string \<Rightarrow> string \<Rightarrow> Entry \<Rightarrow> Entry \<Rightarrow> resolver_state \<Rightarrow> resolver_state" where
  "configStateStep prioData deprioData c configStateChild s =
     (case s of (directChildren, prioNames, errs) \<Rightarrow>
       (case (if Name c = deprioData
              then (if IsChoiceOrCase configStateChild
                    then addNonChoiceChildrenDuplist directChildren configStateChild prioNames errs
                    else if Name configStateChild \<notin> prioNames
                    then addNewChild directChildren (Name configStateChild) configStateChild errs
                    else (directChildren, errs))
              else (if IsChoiceOrCase configStateChild
                    then addNonChoiceChildren directChildren configStateChild errs
                    else addNewChild directChildren (Name configStateChild) configStateChild errs))
        of (directChildren', errs') \<Rightarrow>
          (directChildren',
           (if Name c = prioData
            then (if IsChoiceOrCase configStateChild
                  then prioNames \<union> Name ` set (FindFirstNonChoiceOrCase configStateChild)
                  else insert (Name configStateChild) prioNames)
            else prioNames),
           errs')))"

text \<open>The body of the main loop for the child \<open>c = e.Dir[currChild]\<close>.\<close>

definition childStep ::
  "Entry \<Rightarrow> bool \<Rightarrow> string \<Rightarrow> string \<Rightarrow> Entry \<Rightarrow> resolver_state \<Rightarrow> resolver_state" where
  "childStep e excludeState prioData deprioData c s =
     (case s of (directChildren, prioNames, errs) \<Rightarrow>
        if excludeState \<and> \<not> IsConfig c then s
        else if IsConfigState c
        then fold (configStateStep prioData deprioData c) (Children c) s
        else if IsDir c
        then (let eGrandChildren = Children c
              in if length eGrandChildren = 1 \<and> IsList (eGrandChildren ! 0)
                 then (if \<not> IsConfig (eGrandChildren ! 0) \<and> excludeState then s
                       else (case addNewChild directChildren (Name (eGrandChildren ! 0))
                                    (eGrandChildren ! 0) errs of
                               (m, errs') \<Rightarrow> (m, prioNames, errs')))
                 else if IsChoiceOrCase c
                 then (case addNonChoiceChildren directChildren c errs of
                         (m, errs') \<Rightarrow> (m, prioNames, errs'))
                 else (case addNewChild directChildren (Name c) c errs of
                         (m, errs') \<Rightarrow> (m, prioNames, errs')))
        else if \<not> (IsList e \<and> Kind c = LeafRef)
        then (case addNewChild directChildren (Name c) c errs of
                (m, errs') \<Rightarrow> (m, prioNames, errs'))
        else s)"

text \<open>
  The main loop (lines 309 to 401). \<open>e.Dir[currChild]\<close> is dereferenced in every
  branch, so a name with no child under it, Go's nil, ends the call with a panic:
  the result \<open>None\<close>.
\<close>

fun resolveLoop ::
  "Entry \<Rightarrow> bool \<Rightarrow> string \<Rightarrow> string \<Rightarrow> string list \<Rightarrow> resolver_state \<Rightarrow> resolver_state option" where
  "resolveLoop e excludeState prioData deprioData [] s = Some s"
| "resolveLoop e excludeState prioData deprioData (currChild # rest) s =
     (case DirAt e currChild of
        None \<Rightarrow> None
      | Some c \<Rightarrow> resolveLoop e excludeState prioData deprioData rest
                    (childStep e excludeState prioData deprioData c s))"

text \<open>Lines 271 to 402: the compressed path, once the two names are chosen.\<close>

definition compressedChildren ::
  "Entry \<Rightarrow> bool \<Rightarrow> string \<Rightarrow> string \<Rightarrow> (children \<times> string list) option" where
  "compressedChildren e excludeState prioData deprioData =
     map_option (\<lambda>(directChildren, prioNames, errs). (directChildren, errs))
       (resolveLoop e excludeState prioData deprioData (orderedChildNames e prioData)
          (Map.empty, {}, []))"

text \<open>
  Lines 250 to 270: the early return for a read-only node, then the choice of the path
  and of the two names. \<open>None\<close> is a panic of the main loop; every other call returns
  the mapping and the errors.
\<close>

definition FindAllChildren ::
  "Entry \<Rightarrow> CompressBehaviour \<Rightarrow> (children \<times> string list) option" where
  "FindAllChildren e compBehaviour =
     (let excludeState = (compBehaviour = ExcludeDerivedState
                          \<or> compBehaviour = UncompressedExcludeDerivedState)
      in if excludeState \<and> \<not> IsConfig e then Some (Map.empty, [])
         else (case compBehaviour of
                 Uncompressed \<Rightarrow> Some (findAllChildrenWithoutCompression e excludeState)
               | UncompressedExcludeDerivedState \<Rightarrow>
                   Some (findAllChildrenWithoutCompression e excludeState)
               | PreferIntendedConfig \<Rightarrow> compressedChildren e excludeState ''config'' ''state''
               | ExcludeDerivedState \<Rightarrow> compressedChildren e excludeState ''config'' ''state''
               | PreferOperationalState \<Rightarrow> compressedChildren e excludeState ''state'' ''config''))"

section \<open>The resolver seen from the specification\<close>

text \<open>
  The resolver hands a sequence of candidate nodes to the duplicate guard, one call of
  \<open>addNewChild\<close> for each. The definitions of this section describe that sequence and
  what the guard makes of it; they are not taken from the source, and the lemmas of the
  next sections prove that \<open>FindAllChildren\<close> computes exactly what they say.
\<close>

text \<open>The message of the error that \<open>addNewChild\<close> appends for the node \<open>v\<close>.\<close>

definition duplicateError :: "Entry \<Rightarrow> string" where
  "duplicateError v = Path v @ '' was duplicate''"

text \<open>The duplicate guard called on every node of a list, each under its own name.\<close>

fun guardAll :: "Entry list \<Rightarrow> children \<Rightarrow> string list \<Rightarrow> children \<times> string list" where
  "guardAll [] m errs = (m, errs)"
| "guardAll (v # vs) m errs =
     (case addNewChild m (Name v) v errs of (m', errs') \<Rightarrow> guardAll vs m' errs')"

text \<open>First writer wins: a name is mapped to the first candidate that bears it.\<close>

definition firstWins :: "Entry list \<Rightarrow> children" where
  "firstWins cs k = find (\<lambda>v. Name v = k) cs"

text \<open>
  The duplicate situations: the candidates whose name was seen before them, in the order
  of the sequence.
\<close>

fun losersFrom :: "string set \<Rightarrow> Entry list \<Rightarrow> Entry list" where
  "losersFrom seen [] = []"
| "losersFrom seen (v # vs) =
     (if Name v \<in> seen then v # losersFrom seen vs
      else losersFrom (insert (Name v) seen) vs)"

text \<open>What one declared node contributes once Choice and Case wrappers are flattened.\<close>

definition flat :: "Entry \<Rightarrow> Entry list" where
  "flat g = (if IsChoiceOrCase g then FindFirstNonChoiceOrCase g else [g])"

text \<open>
  The candidates of a config or state container \<open>c\<close>: its flattened children, without the
  whitelisted names when \<open>c\<close> is the deprioritised container.
\<close>

definition configStateCands :: "string \<Rightarrow> Entry \<Rightarrow> string set \<Rightarrow> Entry list" where
  "configStateCands deprioData c prioNames =
     (if Name c = deprioData
      then filter (\<lambda>n. Name n \<notin> prioNames) (concat (map flat (Children c)))
      else concat (map flat (Children c)))"

text \<open>The candidates that the scheduled child \<open>c\<close> of \<open>e\<close> contributes (rules 1 to 4 of 4.2).\<close>

definition childCands ::
  "Entry \<Rightarrow> bool \<Rightarrow> string \<Rightarrow> Entry \<Rightarrow> string set \<Rightarrow> Entry list" where
  "childCands e excludeState deprioData c prioNames =
     (if excludeState \<and> \<not> IsConfig c then []
      else if IsConfigState c then configStateCands deprioData c prioNames
      else if IsDir c
      then (if length (Children c) = 1 \<and> IsList (Children c ! 0)
            then (if \<not> IsConfig (Children c ! 0) \<and> excludeState then [] else [Children c ! 0])
            else if IsChoiceOrCase c then FindFirstNonChoiceOrCase c
            else [c])
      else if IsList e \<and> Kind c = LeafRef then [] else [c])"

text \<open>The whitelist after the scheduled child \<open>c\<close>: only the priority container extends it.\<close>

definition childPrio :: "bool \<Rightarrow> string \<Rightarrow> Entry \<Rightarrow> string set \<Rightarrow> string set" where
  "childPrio excludeState prioData c prioNames =
     (if \<not> (excludeState \<and> \<not> IsConfig c) \<and> IsConfigState c \<and> Name c = prioData
      then prioNames \<union> Name ` set (concat (map flat (Children c)))
      else prioNames)"

fun loopCands ::
  "Entry \<Rightarrow> bool \<Rightarrow> string \<Rightarrow> string \<Rightarrow> Entry list \<Rightarrow> string set \<Rightarrow> Entry list" where
  "loopCands e x pr de [] pn = []"
| "loopCands e x pr de (c # cs) pn =
     childCands e x de c pn @ loopCands e x pr de cs (childPrio x pr c pn)"

text \<open>The priority and the deprioritised name of a compressed policy (lines 265 to 268).\<close>

definition prioData :: "CompressBehaviour \<Rightarrow> string" where
  "prioData p = (if p = PreferOperationalState then ''state'' else ''config'')"

definition deprioData :: "CompressBehaviour \<Rightarrow> string" where
  "deprioData p = (if p = PreferOperationalState then ''config'' else ''state'')"

text \<open>The children that the main loop visits, in its order.\<close>

definition scheduled :: "Entry \<Rightarrow> string \<Rightarrow> Entry list" where
  "scheduled e pr = List.map_filter (DirAt e) (orderedChildNames e pr)"

text \<open>The whole sequence of candidates of one call.\<close>

definition candidates :: "Entry \<Rightarrow> CompressBehaviour \<Rightarrow> Entry list" where
  "candidates e p =
     (if StateExcluded p \<and> \<not> IsConfig e then []
      else if \<not> CompressEnabled p
      then concat (map flat (filter (\<lambda>c. \<not> (StateExcluded p \<and> \<not> IsConfig c)) (Children e)))
      else loopCands e (StateExcluded p) (prioData p) (deprioData p)
             (scheduled e (prioData p)) {})"

text \<open>The node \<open>e\<close> without its declared children named \<open>k\<close>.\<close>

definition withoutChild :: "string \<Rightarrow> Entry \<Rightarrow> Entry" where
  "withoutChild k e =
     Entry (Name e) (Kind e) (Config e) (Parents e) (filter (\<lambda>c. Name c \<noteq> k) (Dir e))"

text \<open>
  A tree as the schema loader builds it: the names of siblings differ (the key set of
  \<open>Dir\<close> has no duplicates), and the ancestor chain of every child is the one of its
  parent, extended by the parent. Two nodes of such a tree that sit at different places
  are different values, as two pointers are in the source.
\<close>

fun wellFormed :: "Entry \<Rightarrow> bool" where
  "wellFormed (Entry n k c ps d) =
     (distinct (map Name d) \<and> (\<forall>ch \<in> set d. Parents ch = (n, c) # ps \<and> wellFormed ch))"


text \<open>
  The source enumerates a directory through \<open>util.Children\<close> and
  \<open>util.FindFirstNonChoiceOrCase\<close>; \<open>Dir\<close> is a Go map there (line 286 reads it by key),
  and the source does not fix the order in which the helpers go through it. In the model
  the order of the list \<open>Dir\<close> is that order. An \<open>enumerator\<close> gives another one: for a
  node and the list of its children, the children in the order of its choice.
\<close>

type_synonym enumerator = "Entry \<Rightarrow> Entry list \<Rightarrow> Entry list"


text \<open>
  The same node under another enumeration. \<open>reorderFlat\<close> reorders what the flattener
  goes through, the choice and case nodes, and leaves every other node as it is;
  \<open>reorderChild\<close> also reorders the children of a config or state container, which the
  compressed path goes through; \<open>reorderNode\<close> reorders the children of the queried node.
  Of any other directory the source only counts the children and looks at the only one
  (lines 377 to 379), so their order plays no part. No node that can become a resolved
  child is changed.
\<close>

fun reorderFlat :: "enumerator \<Rightarrow> Entry \<Rightarrow> Entry" where
  "reorderFlat \<pi> (Entry n k c ps d) =
     (if k = Choice \<or> k = Case
      then Entry n k c ps (\<pi> (Entry n k c ps d) (map (reorderFlat \<pi>) d))
      else Entry n k c ps d)"

definition reorderChild :: "CompressBehaviour \<Rightarrow> enumerator \<Rightarrow> Entry \<Rightarrow> Entry" where
  "reorderChild p \<pi> c =
     (if CompressEnabled p \<and> IsConfigState c
      then Entry (Name c) (Kind c) (Config c) (Parents c) (\<pi> c (map (reorderFlat \<pi>) (Dir c)))
      else reorderFlat \<pi> c)"

definition reorderNode :: "CompressBehaviour \<Rightarrow> enumerator \<Rightarrow> Entry \<Rightarrow> Entry" where
  "reorderNode p \<pi> e =
     Entry (Name e) (Kind e) (Config e) (Parents e) (\<pi> e (map (reorderChild p \<pi>) (Dir e)))"


section \<open>Example trees\<close>

text \<open>A statement of a routing policy with a choice of two cases.\<close>

definition policyTree :: Entry where
  "policyTree =
     Entry ''statement'' Container Inherited []
       [Entry ''action'' Choice Inherited [(''statement'', Inherited)]
          [Entry ''accept'' Case Inherited [(''action'', Inherited), (''statement'', Inherited)]
             [Entry ''accept-route'' Leaf Inherited
                [(''accept'', Inherited), (''action'', Inherited), (''statement'', Inherited)] []],
           Entry ''reject'' Case Inherited [(''action'', Inherited), (''statement'', Inherited)]
             [Entry ''reject-route'' Leaf Inherited
                [(''reject'', Inherited), (''action'', Inherited), (''statement'', Inherited)] []]]]"

text \<open>A leaf that bears the name of the list inside the container next to it.\<close>

definition clashTree :: Entry where
  "clashTree =
     Entry ''interface'' Container Inherited []
       [Entry ''subinterface'' Leaf Inherited [(''interface'', Inherited)] [],
        Entry ''subinterfaces'' Container Inherited [(''interface'', Inherited)]
          [Entry ''subinterface'' List Inherited
             [(''subinterfaces'', Inherited), (''interface'', Inherited)] []]]"

text \<open>A read-only state container.\<close>

definition stateContainer :: Entry where
  "stateContainer =
     Entry ''state'' Container ExplicitlyReadOnly [(''interface'', Inherited)]
       [Entry ''oper-state'' Leaf Inherited
          [(''state'', ExplicitlyReadOnly), (''interface'', Inherited)] []]"

text \<open>A case node that holds a config and a state container.\<close>

definition caseNode :: Entry where
  "caseNode =
     Entry ''ipv4'' Case Inherited [(''match'', Inherited)]
       [Entry ''config'' Container Inherited [(''ipv4'', Inherited), (''match'', Inherited)]
          [Entry ''prefix'' Leaf Inherited
             [(''config'', Inherited), (''ipv4'', Inherited), (''match'', Inherited)] []],
        Entry ''state'' Container ExplicitlyReadOnly [(''ipv4'', Inherited), (''match'', Inherited)]
          [Entry ''hits'' Leaf Inherited
             [(''state'', ExplicitlyReadOnly), (''ipv4'', Inherited), (''match'', Inherited)] []]]"

text \<open>A list whose key leaf refers to the leaf of the same name under config.\<close>

definition keyedList :: Entry where
  "keyedList =
     Entry ''interface'' List Inherited [(''interfaces'', Inherited)]
       [Entry ''name'' LeafRef Inherited [(''interface'', Inherited), (''interfaces'', Inherited)] [],
        Entry ''config'' Container Inherited [(''interface'', Inherited), (''interfaces'', Inherited)]
          [Entry ''name'' Leaf Inherited
             [(''config'', Inherited), (''interface'', Inherited), (''interfaces'', Inherited)] []]]"

text \<open>A list inside the container that surrounds it.\<close>

definition wrappedList :: Entry where
  "wrappedList =
     Entry ''interface'' Container Inherited []
       [Entry ''subinterfaces'' Container Inherited [(''interface'', Inherited)]
          [Entry ''subinterface'' List Inherited
             [(''subinterfaces'', Inherited), (''interface'', Inherited)] []]]"



text \<open>The tree of Scenario A, state declared before config and its children backwards.\<close>

definition scenarioTree :: Entry where
  "scenarioTree =
     Entry ''interface'' Container Inherited []
       [Entry ''state'' Container ExplicitlyReadOnly [(''interface'', Inherited)]
          [Entry ''counters'' Container Inherited
             [(''state'', ExplicitlyReadOnly), (''interface'', Inherited)]
             [Entry ''in-pkts'' Leaf Inherited
                [(''counters'', Inherited), (''state'', ExplicitlyReadOnly),
                 (''interface'', Inherited)] []],
           Entry ''oper-state'' Leaf Inherited
             [(''state'', ExplicitlyReadOnly), (''interface'', Inherited)] [],
           Entry ''admin-state'' Leaf Inherited
             [(''state'', ExplicitlyReadOnly), (''interface'', Inherited)] []],
        Entry ''config'' Container Inherited [(''interface'', Inherited)]
          [Entry ''admin-state'' Leaf Inherited
             [(''config'', Inherited), (''interface'', Inherited)] []]]"

section \<open>The duplicate guard\<close>

lemmas resolver_defs =
  FindAllChildren_def compressedChildren_def orderedChildNames_def childStep_def
  configStateStep_def findAllChildrenWithoutCompression_def addNewChild_def
  addNonChoiceChildren_def addNonChoiceChildrenDuplist_def Children_def DirAt_def
  IsContainer_def IsList_def IsDir_def IsChoiceOrCase_def IsConfigState_def IsConfig_def
  Path_def

lemma guardAll_append:
  "guardAll (xs @ ys) m errs = (case guardAll xs m errs of (m', errs') \<Rightarrow> guardAll ys m' errs')"
  by (induction xs arbitrary: m errs) (auto split: prod.splits)

lemma fold_guardAll:
  "fold (\<lambda>n (m, errs). addNewChild m (Name n) n errs) cs (m, errs) = guardAll cs m errs"
  by (induction cs arbitrary: m errs) (auto split: prod.splits)

lemma fold_guardAll_filter:
  "fold (\<lambda>n (m, errs). if Name n \<in> dl then (m, errs) else addNewChild m (Name n) n errs)
     cs (m, errs) = guardAll (filter (\<lambda>n. Name n \<notin> dl) cs) m errs"
  by (induction cs arbitrary: m errs) (auto split: prod.splits)

lemma addNonChoiceChildren_guardAll:
  "addNonChoiceChildren m e errs = guardAll (FindFirstNonChoiceOrCase e) m errs"
  by (simp add: addNonChoiceChildren_def fold_guardAll)

lemma addNonChoiceChildrenDuplist_guardAll:
  "addNonChoiceChildrenDuplist m e dl errs
     = guardAll (filter (\<lambda>n. Name n \<notin> dl) (FindFirstNonChoiceOrCase e)) m errs"
  by (simp add: addNonChoiceChildrenDuplist_def fold_guardAll_filter)

lemma guardAll_char:
  "guardAll cs m errs =
     ((\<lambda>k. case m k of Some v \<Rightarrow> Some v | None \<Rightarrow> firstWins cs k),
      errs @ map duplicateError (losersFrom (dom m) cs))"
proof (induction cs arbitrary: m errs)
  case Nil
  show ?case by (auto simp: firstWins_def split: option.splits)
next
  case (Cons v vs)
  show ?case
  proof (cases "m (Name v)")
    case None
    then have "guardAll (v # vs) m errs = guardAll vs (m(Name v \<mapsto> v)) errs"
      by (simp add: addNewChild_def)
    also have "\<dots> = ((\<lambda>k. case (m(Name v \<mapsto> v)) k of Some w \<Rightarrow> Some w | None \<Rightarrow> firstWins vs k),
                     errs @ map duplicateError (losersFrom (dom (m(Name v \<mapsto> v))) vs))"
      by (rule Cons.IH)
    also have "\<dots> = ((\<lambda>k. case m k of Some w \<Rightarrow> Some w | None \<Rightarrow> firstWins (v # vs) k),
                     errs @ map duplicateError (losersFrom (dom m) (v # vs)))"
      using None by (auto simp: firstWins_def fun_eq_iff split: option.splits)
    finally show ?thesis .
  next
    case (Some w)
    then have "guardAll (v # vs) m errs = guardAll vs m (errs @ [duplicateError v])"
      by (simp add: addNewChild_def duplicateError_def)
    also have "\<dots> = ((\<lambda>k. case m k of Some w \<Rightarrow> Some w | None \<Rightarrow> firstWins vs k),
                     (errs @ [duplicateError v]) @ map duplicateError (losersFrom (dom m) vs))"
      by (rule Cons.IH)
    also have "\<dots> = ((\<lambda>k. case m k of Some w \<Rightarrow> Some w | None \<Rightarrow> firstWins (v # vs) k),
                     errs @ map duplicateError (losersFrom (dom m) (v # vs)))"
      using Some by (auto simp: firstWins_def fun_eq_iff split: option.splits)
    finally show ?thesis .
  qed
qed


section \<open>The loops as sequences of candidates\<close>

lemma configStateStep_deprio:
  assumes "Name c = de" "pr \<noteq> de"
  shows "configStateStep pr de c g (m, pn, errs) =
           (case guardAll (filter (\<lambda>n. Name n \<notin> pn) (flat g)) m errs of
              (m', errs') \<Rightarrow> (m', pn, errs'))"
  using assms
  by (auto simp: configStateStep_def flat_def addNonChoiceChildrenDuplist_guardAll
           split: prod.splits)

lemma configStateStep_other:
  assumes "Name c \<noteq> de"
  shows "configStateStep pr de c g (m, pn, errs) =
           (case guardAll (flat g) m errs of
              (m', errs') \<Rightarrow>
                (m', if Name c = pr then pn \<union> Name ` set (flat g) else pn, errs'))"
  using assms
  by (auto simp: configStateStep_def flat_def addNonChoiceChildren_guardAll
           split: prod.splits)

lemma configState_fold_deprio:
  assumes "Name c = de" "pr \<noteq> de"
  shows "fold (configStateStep pr de c) gs (m, pn, errs) =
           (case guardAll (filter (\<lambda>n. Name n \<notin> pn) (concat (map flat gs))) m errs of
              (m', errs') \<Rightarrow> (m', pn, errs'))"
proof (induction gs arbitrary: m errs)
  case Nil
  show ?case by simp
next
  case (Cons g gs)
  show ?case
    by (simp add: configStateStep_deprio [OF assms] guardAll_append Cons.IH
             split: prod.splits)
qed

lemma configState_fold_other:
  assumes "Name c \<noteq> de"
  shows "fold (configStateStep pr de c) gs (m, pn, errs) =
           (case guardAll (concat (map flat gs)) m errs of
              (m', errs') \<Rightarrow>
                (m', if Name c = pr then pn \<union> Name ` set (concat (map flat gs)) else pn,
                 errs'))"
proof (induction gs arbitrary: m pn errs)
  case Nil
  show ?case by simp
next
  case (Cons g gs)
  show ?case
    by (simp add: configStateStep_other [OF assms] guardAll_append Cons.IH
             Un_assoc image_Un split: prod.splits)
qed

lemma childStep_char:
  assumes "pr \<noteq> de"
  shows "childStep e x pr de c (m, pn, errs) =
           (case guardAll (childCands e x de c pn) m errs of
              (m', errs') \<Rightarrow> (m', childPrio x pr c pn, errs'))"
proof (cases "x \<and> \<not> IsConfig c")
  case True
  then show ?thesis by (simp add: childStep_def childCands_def childPrio_def)
next
  case skip: False
  show ?thesis
  proof (cases "IsConfigState c")
    case True
    show ?thesis
    proof (cases "Name c = de")
      case True
      with assms have "Name c \<noteq> pr" by simp
      with skip \<open>IsConfigState c\<close> True show ?thesis
        using configState_fold_deprio [OF True assms, of "Children c" m pn errs]
        by (auto simp: childStep_def childCands_def childPrio_def configStateCands_def)
    next
      case False
      with skip \<open>IsConfigState c\<close> show ?thesis
        using configState_fold_other [OF False, of pr "Children c" m pn errs]
        by (auto simp: childStep_def childCands_def childPrio_def configStateCands_def)
    qed
  next
    case False
    with skip show ?thesis
      by (auto simp: childStep_def childCands_def childPrio_def Let_def
            addNonChoiceChildren_guardAll split: prod.splits)
  qed
qed

lemma resolveLoop_fold:
  "resolveLoop e x pr de ns s =
     (if \<forall>n \<in> set ns. DirAt e n \<noteq> None
      then Some (fold (childStep e x pr de) (List.map_filter (DirAt e) ns) s)
      else None)"
  by (induction ns arbitrary: s) (auto split: option.splits)

lemma fold_childStep_char:
  assumes "pr \<noteq> de"
  shows "fold (childStep e x pr de) cs (m, pn, errs) =
           (case guardAll (loopCands e x pr de cs pn) m errs of
              (m', errs') \<Rightarrow> (m', fold (childPrio x pr) cs pn, errs'))"
proof (induction cs arbitrary: m pn errs)
  case Nil
  show ?case by simp
next
  case (Cons c cs)
  show ?case
    by (simp add: childStep_char [OF assms] guardAll_append Cons.IH split: prod.splits)
qed

lemma DirAt_Some: "DirAt e n = Some c \<Longrightarrow> c \<in> set (Dir e) \<and> Name c = n"
  unfolding DirAt_def by (induction "Dir e" arbitrary: e) (auto simp: find_Some_iff)

lemma DirAt_None: "(DirAt e n = None) = (n \<notin> Name ` set (Dir e))"
  unfolding DirAt_def by (auto simp: find_None_iff)

lemma orderedChildNames_present:
  "n \<in> set (orderedChildNames e pr) \<Longrightarrow> DirAt e n \<noteq> None"
  by (auto simp: orderedChildNames_def DirAt_None Children_def split: if_splits)

lemma compressedChildren_char:
  assumes "pr \<noteq> de"
  shows "compressedChildren e x pr de =
           Some (guardAll (loopCands e x pr de (scheduled e pr) {}) Map.empty [])"
  using orderedChildNames_present [of _ e pr]
  by (simp add: compressedChildren_def resolveLoop_fold scheduled_def
        fold_childStep_char [OF assms] split: prod.splits)

lemma findAllChildrenWithoutCompression_char:
  "findAllChildrenWithoutCompression e x =
     guardAll (concat (map flat (filter (\<lambda>c. \<not> (x \<and> \<not> IsConfig c)) (Children e)))) Map.empty []"
proof -
  have "fold (\<lambda>child (directChildren, errs).
             if x \<and> \<not> IsConfig child then (directChildren, errs)
             else if IsChoiceOrCase child then addNonChoiceChildren directChildren child errs
             else addNewChild directChildren (Name child) child errs) cs (m, errs)
        = guardAll (concat (map flat (filter (\<lambda>c. \<not> (x \<and> \<not> IsConfig c)) cs))) m errs"
    for cs m errs
    by (induction cs arbitrary: m errs)
       (auto simp: flat_def guardAll_append addNonChoiceChildren_guardAll split: prod.splits)
  then show ?thesis by (simp add: findAllChildrenWithoutCompression_def)
qed

lemma FindAllChildren_char:
  "FindAllChildren e p = Some (guardAll (candidates e p) Map.empty [])"
  by (cases p)
     (simp_all add: FindAllChildren_def candidates_def prioData_def deprioData_def
        compressedChildren_char findAllChildrenWithoutCompression_char)


section \<open>First writer wins\<close>

lemma firstWins_Some: "firstWins cs k = Some v \<Longrightarrow> v \<in> set cs \<and> Name v = k"
  by (auto simp: firstWins_def find_Some_iff)

lemma firstWins_ran: "v \<in> ran (firstWins cs) \<Longrightarrow> v \<in> set cs \<and> firstWins cs (Name v) = Some v"
  by (auto simp: ran_def dest: firstWins_Some)

lemma guardAll_empty:
  "guardAll cs Map.empty [] = (firstWins cs, map duplicateError (losersFrom {} cs))"
  by (simp add: guardAll_char)

lemma FindAllChildren_spec:
  "FindAllChildren e p =
     Some (firstWins (candidates e p), map duplicateError (losersFrom {} (candidates e p)))"
  by (simp add: FindAllChildren_char guardAll_empty)

section \<open>Wrapper nodes are never candidates\<close>

lemma FindFirst_not_wrapper:
  "n \<in> set (FindFirstNonChoiceOrCase w) \<Longrightarrow> \<not> IsChoiceOrCase n"
  by (induction w arbitrary: n rule: FindFirstNonChoiceOrCase.induct)
     (auto split: if_splits)

lemma flat_not_wrapper: "n \<in> set (flat g) \<Longrightarrow> \<not> IsChoiceOrCase n"
  by (auto simp: flat_def dest: FindFirst_not_wrapper split: if_splits)

lemma childCands_not_wrapper:
  "n \<in> set (childCands e x de c pn) \<Longrightarrow> \<not> IsChoiceOrCase n"
  by (auto simp: childCands_def configStateCands_def IsDir_def IsChoiceOrCase_def IsList_def
           dest: FindFirst_not_wrapper flat_not_wrapper split: if_splits)

lemma loopCands_member:
  "n \<in> set (loopCands e x pr de cs pn) \<Longrightarrow>
     \<exists>c \<in> set cs. \<exists>pn'. n \<in> set (childCands e x de c pn')"
  by (induction cs arbitrary: pn) auto

lemma candidates_not_wrapper:
  "n \<in> set (candidates e p) \<Longrightarrow> \<not> IsChoiceOrCase n"
  by (auto simp: candidates_def dest: flat_not_wrapper childCands_not_wrapper
           dest!: loopCands_member split: if_splits)

section \<open>A child that is never scheduled\<close>

lemma childCands_parent:
  "IsList e' = IsList e \<Longrightarrow> childCands e' x de c pn = childCands e x de c pn"
  by (simp add: childCands_def)

lemma loopCands_parent:
  "IsList e' = IsList e \<Longrightarrow> loopCands e' x pr de cs pn = loopCands e x pr de cs pn"
  by (induction cs arbitrary: pn) (simp_all add: childCands_parent [of e' e])

lemma find_filter_other:
  "n \<noteq> k \<Longrightarrow>
     find (\<lambda>c. Name c = n) (filter (\<lambda>c. Name c \<noteq> k) xs) = find (\<lambda>c. Name c = n) xs"
  by (induction xs) auto

lemma DirAt_withoutChild: "n \<noteq> k \<Longrightarrow> DirAt (withoutChild k e) n = DirAt e n"
  by (simp add: DirAt_def withoutChild_def find_filter_other)

lemma map_filter_cong_set:
  "\<forall>n \<in> set ns. f n = g n \<Longrightarrow> List.map_filter f ns = List.map_filter g ns"
  by (induction ns) (auto split: option.splits)

lemma orderedChildNames_wrapper:
  "\<not> IsContainer e \<Longrightarrow> \<not> IsList e \<Longrightarrow>
     orderedChildNames e k = map Name (filter (\<lambda>c. Name c \<noteq> k) (Dir e))"
  by (simp add: orderedChildNames_def Children_def)

lemma scheduled_withoutChild:
  assumes "\<not> IsContainer e" "\<not> IsList e"
  shows "scheduled (withoutChild k e) k = scheduled e k"
proof -
  have k: "\<not> IsContainer (withoutChild k e)" "\<not> IsList (withoutChild k e)"
    using assms by (simp_all add: withoutChild_def IsContainer_def IsList_def)
  have names: "orderedChildNames (withoutChild k e) k = orderedChildNames e k"
    by (simp add: orderedChildNames_wrapper assms k) (simp add: withoutChild_def)
  have "n \<in> set (orderedChildNames e k) \<Longrightarrow> DirAt (withoutChild k e) n = DirAt e n" for n
    by (rule DirAt_withoutChild) (auto simp: orderedChildNames_wrapper assms)
  then have "List.map_filter (DirAt (withoutChild k e)) (orderedChildNames e k)
             = List.map_filter (DirAt e) (orderedChildNames e k)"
    by (intro map_filter_cong_set) blast
  then show ?thesis
    by (simp add: scheduled_def names)
qed

lemma candidates_withoutChild:
  assumes "CompressEnabled p" "\<not> IsContainer e" "\<not> IsList e"
  shows "candidates (withoutChild (prioData p) e) p = candidates e p"
proof -
  have "IsConfig (withoutChild (prioData p) e) = IsConfig e"
    by (simp add: IsConfig_def withoutChild_def)
  moreover have "IsList (withoutChild (prioData p) e) = IsList e"
    by (simp add: IsList_def withoutChild_def)
  then have "loopCands (withoutChild (prioData p) e) x pr de cs pn = loopCands e x pr de cs pn"
    for x pr de cs pn
    by (rule loopCands_parent)
  ultimately show ?thesis
    using assms by (simp add: candidates_def scheduled_withoutChild)
qed

section \<open>Where a candidate sits in a well-formed tree\<close>

lemma wellFormed_child:
  "wellFormed e \<Longrightarrow> c \<in> set (Dir e) \<Longrightarrow>
     Parents c = (Name e, Config e) # Parents e \<and> wellFormed c"
  by (cases e) auto

lemma wellFormed_distinct: "wellFormed e \<Longrightarrow> distinct (map Name (Dir e))"
  by (cases e) auto

lemma FindFirst_below:
  "wellFormed w \<Longrightarrow> v \<in> set (FindFirstNonChoiceOrCase w) \<Longrightarrow>
     \<exists>qs. Parents v = qs @ (Name w, Config w) # Parents w"
proof (induction w arbitrary: v rule: FindFirstNonChoiceOrCase.induct)
  case (1 n k c ps d)
  from "1.prems"(2) obtain ch where ch: "ch \<in> set d"
    and v: "v \<in> set (if IsChoiceOrCase ch then FindFirstNonChoiceOrCase ch else [ch])"
    by auto
  from "1.prems"(1) ch have p: "Parents ch = (n, c) # ps" and wf: "wellFormed ch"
    by auto
  show ?case
  proof (cases "IsChoiceOrCase ch")
    case True
    with v have "v \<in> set (FindFirstNonChoiceOrCase ch)" by simp
    from "1.IH" [OF ch True wf this] obtain qs
      where "Parents v = qs @ (Name ch, Config ch) # Parents ch" by blast
    with p have "Parents v = (qs @ [(Name ch, Config ch)]) @ (n, c) # ps" by simp
    then show ?thesis by (metis Entry.sel(1,3,4))
  next
    case False
    with v p have "Parents v = [] @ (n, c) # ps" by simp
    then show ?thesis by (metis Entry.sel(1,3,4))
  qed
qed

lemma flat_below:
  assumes "wellFormed c" "g \<in> set (Dir c)" "v \<in> set (flat g)"
  shows "\<exists>qs. Parents v = qs @ (Name c, Config c) # Parents c"
proof -
  from wellFormed_child [OF assms(1,2)]
  have p: "Parents g = (Name c, Config c) # Parents c" and wf: "wellFormed g" by auto
  show ?thesis
  proof (cases "IsChoiceOrCase g")
    case True
    with assms(3) have "v \<in> set (FindFirstNonChoiceOrCase g)" by (simp add: flat_def)
    from FindFirst_below [OF wf this] obtain qs
      where "Parents v = qs @ (Name g, Config g) # Parents g" by blast
    with p have "Parents v = (qs @ [(Name g, Config g)]) @ (Name c, Config c) # Parents c"
      by simp
    then show ?thesis by blast
  next
    case False
    with assms(3) p have "Parents v = [] @ (Name c, Config c) # Parents c"
      by (simp add: flat_def)
    then show ?thesis by blast
  qed
qed

lemma childCands_below:
  assumes "wellFormed c" "v \<in> set (childCands e x de c pn)"
  shows "v = c \<or> (\<exists>qs. Parents v = qs @ (Name c, Config c) # Parents c)"
proof (cases "IsConfigState c")
  case True
  with assms(2) obtain g where "g \<in> set (Dir c)" "v \<in> set (flat g)"
    by (auto simp: childCands_def configStateCands_def Children_def split: if_splits)
  with flat_below [OF assms(1)] show ?thesis by blast
next
  case False
  show ?thesis
  proof (cases "v = c")
    case True
    then show ?thesis by simp
  next
    case ne: False
    with False assms(2)
    consider "length (Dir c) = 1" "v = Dir c ! 0"
      | "v \<in> set (FindFirstNonChoiceOrCase c)"
      by (auto simp: childCands_def Children_def split: if_splits)
    then show ?thesis
    proof cases
      case 1
      then have "v \<in> set (Dir c)" by (cases "Dir c") auto
      with wellFormed_child [OF assms(1)]
      have "Parents v = [] @ (Name c, Config c) # Parents c" by simp
      then show ?thesis by blast
    next
      case 2
      with FindFirst_below [OF assms(1)] show ?thesis by blast
    qed
  qed
qed

lemma map_filter_member:
  "c \<in> set (List.map_filter f ns) \<Longrightarrow> \<exists>n \<in> set ns. f n = Some c"
  by (induction ns) (auto split: option.splits)

lemma scheduled_subset: "c \<in> set (scheduled e pr) \<Longrightarrow> c \<in> set (Dir e)"
  by (auto simp: scheduled_def dest!: map_filter_member dest: DirAt_Some)

lemma candidates_compressed_member:
  assumes "CompressEnabled p" "v \<in> set (candidates e p)"
  shows "\<exists>c \<in> set (Dir e). \<exists>pn. v \<in> set (childCands e (StateExcluded p) (deprioData p) c pn)"
proof -
  from assms have "v \<in> set (loopCands e (StateExcluded p) (prioData p) (deprioData p)
                              (scheduled e (prioData p)) {})"
    by (simp add: candidates_def split: if_splits)
  from loopCands_member [OF this] show ?thesis
    by (blast dest: scheduled_subset)
qed

lemma child_not_below_sibling:
  assumes "wellFormed e" "c \<in> set (Dir e)" "c' \<in> set (Dir e)"
  shows "Parents c \<noteq> qs @ (Name c', Config c') # Parents c'"
proof
  assume "Parents c = qs @ (Name c', Config c') # Parents c'"
  then have "length (Parents c) = length qs + 1 + length (Parents c')" by simp
  moreover have "Parents c = Parents c'"
    using wellFormed_child [OF assms(1,2)] wellFormed_child [OF assms(1,3)] by simp
  ultimately show False by simp
qed

section \<open>What becomes of a candidate\<close>

lemma loopCands_from_child:
  "c \<in> set cs \<Longrightarrow> (\<And>pn. v \<in> set (childCands e x de c pn)) \<Longrightarrow>
     v \<in> set (loopCands e x pr de cs pn0)"
  by (induction cs arbitrary: pn0) auto

lemma find_distinct_name:
  "distinct (map Name xs) \<Longrightarrow> c \<in> set xs \<Longrightarrow> find (\<lambda>d. Name d = Name c) xs = Some c"
  by (induction xs) (auto simp: image_iff)

lemma DirAt_distinct:
  "distinct (map Name (Dir e)) \<Longrightarrow> c \<in> set (Dir e) \<Longrightarrow> DirAt e (Name c) = Some c"
  by (simp add: DirAt_def find_distinct_name)

lemma map_filter_intro:
  "n \<in> set ns \<Longrightarrow> f n = Some c \<Longrightarrow> c \<in> set (List.map_filter f ns)"
  by (induction ns) (auto split: option.splits)

lemma scheduled_other:
  assumes "distinct (map Name (Dir e))" "c \<in> set (Dir e)" "Name c \<noteq> pr"
  shows "c \<in> set (scheduled e pr)"
proof -
  have "Name c \<in> set (orderedChildNames e pr)"
    using assms(2,3) by (simp add: orderedChildNames_def Children_def)
  then show ?thesis
    unfolding scheduled_def
    by (rule map_filter_intro) (rule DirAt_distinct [OF assms(1,2)])
qed

lemma prioData_cases: "prioData p = ''config'' \<or> prioData p = ''state''"
  by (simp add: prioData_def)


lemma distinct_name_eq:
  "distinct (map Name xs) \<Longrightarrow> c \<in> set xs \<Longrightarrow> c' \<in> set xs \<Longrightarrow> Name c = Name c' \<Longrightarrow> c = c'"
  by (induction xs) (auto simp: image_iff)

section \<open>A candidate behind its predecessors\<close>

lemma firstWins_append:
  "firstWins (xs @ ys) k = (case firstWins xs k of None \<Rightarrow> firstWins ys k | Some v \<Rightarrow> Some v)"
  unfolding firstWins_def by (induction xs) auto

lemma firstWins_None: "(firstWins cs k = None) = (k \<notin> Name ` set cs)"
  by (auto simp: firstWins_def find_None_iff)

lemma loser_after:
  "Name l \<in> seen \<union> Name ` set before \<Longrightarrow> l \<in> set (losersFrom seen (before @ l # after))"
  by (induction before arbitrary: seen) auto

section \<open>The schedule of a node with distinct child names\<close>




section \<open>A mirrored leaf\<close>










section \<open>The order of enumeration\<close>









lemma reorderFlat_sels [simp]:
  "Name (reorderFlat \<pi> g) = Name g" "Kind (reorderFlat \<pi> g) = Kind g"
  "Config (reorderFlat \<pi> g) = Config g" "Parents (reorderFlat \<pi> g) = Parents g"
  by (cases g; simp)+





lemma reorderChild_sels [simp]:
  "Name (reorderChild p \<pi> c) = Name c" "Kind (reorderChild p \<pi> c) = Kind c"
  "Config (reorderChild p \<pi> c) = Config c" "Parents (reorderChild p \<pi> c) = Parents c"
  by (simp_all add: reorderChild_def)

lemma reorderChild_tests [simp]:
  "IsConfig (reorderChild p \<pi> c) = IsConfig c"
  "IsConfigState (reorderChild p \<pi> c) = IsConfigState c"
  "IsDir (reorderChild p \<pi> c) = IsDir c"
  "IsChoiceOrCase (reorderChild p \<pi> c) = IsChoiceOrCase c"
  by (simp_all add: IsConfig_def IsConfigState_def IsContainer_def IsDir_def IsChoiceOrCase_def)









lemma reorderNode_sels [simp]:
  "Name (reorderNode p \<pi> e) = Name e" "Kind (reorderNode p \<pi> e) = Kind e"
  "Config (reorderNode p \<pi> e) = Config e" "Parents (reorderNode p \<pi> e) = Parents e"
  "Dir (reorderNode p \<pi> e) = \<pi> e (map (reorderChild p \<pi>) (Dir e))"
  by (simp_all add: reorderNode_def)





section \<open>Lists of two and of three\<close>

lemma two_orders:
  assumes "set d = {a, b}" "length d = 2"
  shows "d = [a, b] \<or> d = [b, a]"
proof -
  from assms(2) obtain x y where d: "d = [x, y]"
    by (cases d; cases "tl d") auto
  with assms(1) show ?thesis by (auto simp: doubleton_eq_iff)
qed

lemma three_orders:
  assumes "set d = {a, b, c}" "length d = 3" "a \<noteq> b" "a \<noteq> c" "b \<noteq> c"
  shows "d = [a, b, c] \<or> d = [a, c, b] \<or> d = [b, a, c] \<or> d = [b, c, a]
         \<or> d = [c, a, b] \<or> d = [c, b, a]"
proof -
  from assms(2) obtain x y z where d: "d = [x, y, z]"
    by (cases d; cases "tl d"; cases "tl (tl d)") auto
  have "card (set d) = 3" using assms(1,3,4,5) by simp
  with d have ne: "x \<noteq> y" "x \<noteq> z" "y \<noteq> z"
    by (auto simp: card_insert_if split: if_splits)
  from assms(1) d have "x \<in> {a, b, c}" "y \<in> {a, b, c}" "z \<in> {a, b, c}" by auto
  with ne d show ?thesis by auto
qed

section \<open>Results\<close>

text \<open>
  C1. Scenario A: for the Container \<open>interface\<close> with the declared children
  \<open>config {admin-state}\<close> and \<open>state {admin-state, oper-state, counters {in-pkts}}\<close>,
  the policy PreferIntendedConfig resolves exactly admin-state (the copy under config),
  oper-state and counters, with no error. The two children may be declared in either
  order and the three children of state in any order; the config visibilities and the
  ancestor chains of the nodes are arbitrary.
\<close>

theorem scenario_A:
  assumes "set d = {cfg, st}" "length d = 2"
    and "cfg = Entry ''config'' Container v1 ps1 [adminC]"
    and "adminC = Entry ''admin-state'' Leaf v2 ps2 []"
    and "st = Entry ''state'' Container v3 ps3 sd"
    and "set sd = {adminS, oper, counters}" "length sd = 3"
    and "adminS = Entry ''admin-state'' Leaf v4 ps4 []"
    and "oper = Entry ''oper-state'' Leaf v5 ps5 []"
    and "counters = Entry ''counters'' Container v6 ps6 [Entry ''in-pkts'' Leaf v7 ps7 []]"
  shows "FindAllChildren (Entry ''interface'' Container v0 ps0 d) PreferIntendedConfig
         = Some ([''admin-state'' \<mapsto> adminC, ''oper-state'' \<mapsto> oper, ''counters'' \<mapsto> counters],
                 [])"
proof -
  have ne: "adminS \<noteq> oper" "adminS \<noteq> counters" "oper \<noteq> counters"
    by (simp_all add: assms)
  from two_orders [OF assms(1,2)] three_orders [OF assms(6,7) ne]
  show ?thesis
    by (elim disjE) (simp_all add: assms(3,4,5,8,9,10) resolver_defs fun_eq_iff)
qed

theorem scenario_A_witness:
  "map Name (Dir scenarioTree) = [''state'', ''config'']
   \<and> map Name (Dir (Dir scenarioTree ! 0)) = [''counters'', ''oper-state'', ''admin-state'']
   \<and> set (Dir scenarioTree) = {Dir scenarioTree ! 1, Dir scenarioTree ! 0}
   \<and> length (Dir scenarioTree) = 2
   \<and> set (Dir (Dir scenarioTree ! 0))
       = {Dir (Dir scenarioTree ! 0) ! 2, Dir (Dir scenarioTree ! 0) ! 1,
          Dir (Dir scenarioTree ! 0) ! 0}
   \<and> length (Dir (Dir scenarioTree ! 0)) = 3
   \<and> FindAllChildren scenarioTree PreferIntendedConfig
       = Some ([''admin-state'' \<mapsto> Dir (Dir scenarioTree ! 1) ! 0,
                ''oper-state'' \<mapsto> Dir (Dir scenarioTree ! 0) ! 1,
                ''counters'' \<mapsto> Dir (Dir scenarioTree ! 0) ! 0], [])"
proof -
  let ?e = scenarioTree
  have n: "map Name (Dir ?e) = [''state'', ''config'']"
    "map Name (Dir (Dir ?e ! 0)) = [''counters'', ''oper-state'', ''admin-state'']"
    by (simp_all add: scenarioTree_def)
  have h: "set (Dir ?e) = {Dir ?e ! 1, Dir ?e ! 0}" "length (Dir ?e) = 2"
    "Dir ?e ! 1 = Entry ''config'' Container Inherited [(''interface'', Inherited)]
                    [Dir (Dir ?e ! 1) ! 0]"
    "Dir (Dir ?e ! 1) ! 0 = Entry ''admin-state'' Leaf Inherited
                              [(''config'', Inherited), (''interface'', Inherited)] []"
    "Dir ?e ! 0 = Entry ''state'' Container ExplicitlyReadOnly [(''interface'', Inherited)]
                    (Dir (Dir ?e ! 0))"
    "set (Dir (Dir ?e ! 0)) = {Dir (Dir ?e ! 0) ! 2, Dir (Dir ?e ! 0) ! 1, Dir (Dir ?e ! 0) ! 0}"
    "length (Dir (Dir ?e ! 0)) = 3"
    "Dir (Dir ?e ! 0) ! 2 = Entry ''admin-state'' Leaf Inherited
                              [(''state'', ExplicitlyReadOnly), (''interface'', Inherited)] []"
    "Dir (Dir ?e ! 0) ! 1 = Entry ''oper-state'' Leaf Inherited
                              [(''state'', ExplicitlyReadOnly), (''interface'', Inherited)] []"
    "Dir (Dir ?e ! 0) ! 0 = Entry ''counters'' Container Inherited
                              [(''state'', ExplicitlyReadOnly), (''interface'', Inherited)]
                              [Entry ''in-pkts'' Leaf Inherited
                                 [(''counters'', Inherited), (''state'', ExplicitlyReadOnly),
                                  (''interface'', Inherited)] []]"
    by (auto simp: scenarioTree_def)
  have e: "?e = Entry ''interface'' Container Inherited [] (Dir ?e)"
    by (simp add: scenarioTree_def)
  from scenario_A [OF h, of Inherited "[]"] e
  have "FindAllChildren ?e PreferIntendedConfig
       = Some ([''admin-state'' \<mapsto> Dir (Dir ?e ! 1) ! 0,
                ''oper-state'' \<mapsto> Dir (Dir ?e ! 0) ! 1,
                ''counters'' \<mapsto> Dir (Dir ?e ! 0) ! 0], [])"
    by simp
  with n h(1,2,6,7) show ?thesis by simp
qed




text \<open>
  C3, as amended. For every List node of a well-formed tree and every compressed policy,
  a declared child of the List whose kind is LeafRef is absent from the resolved child
  set: the call returns, and the node is no value of the returned mapping.
\<close>

theorem leafref_key_suppressed_when_compressed:
  assumes "wellFormed e" "IsList e" "CompressEnabled p" "c \<in> set (Dir e)" "Kind c = LeafRef"
  shows "\<exists>m errs. FindAllChildren e p = Some (m, errs) \<and> c \<notin> ran m"
proof -
  have "c \<notin> set (candidates e p)"
  proof
    assume "c \<in> set (candidates e p)"
    from candidates_compressed_member [OF assms(3) this] obtain c' pn
      where c': "c' \<in> set (Dir e)"
        and in': "c \<in> set (childCands e (StateExcluded p) (deprioData p) c' pn)"
      by blast
    from wellFormed_child [OF assms(1) c'] have "wellFormed c'" by simp
    from childCands_below [OF this in']
    have "c = c'"
      using child_not_below_sibling [OF assms(1,4) c'] by blast
    with in' assms(2,5) show False
      by (simp add: childCands_def IsConfigState_def IsContainer_def IsDir_def
            split: if_splits)
  qed
  then have "c \<notin> ran (firstWins (candidates e p))"
    by (blast dest: firstWins_ran)
  then show ?thesis
    by (simp add: FindAllChildren_spec)
qed

theorem leafref_key_suppressed_when_compressed_witness:
  "wellFormed keyedList \<and> IsList keyedList \<and> CompressEnabled PreferIntendedConfig
   \<and> Dir keyedList ! 0 \<in> set (Dir keyedList) \<and> Kind (Dir keyedList ! 0) = LeafRef
   \<and> FindAllChildren keyedList PreferIntendedConfig
       = Some ([''name'' \<mapsto> Dir (Dir keyedList ! 1) ! 0], [])
   \<and> Dir keyedList ! 0 \<notin> ran (fst (the (FindAllChildren keyedList PreferIntendedConfig)))"
proof -
  have h: "wellFormed keyedList" "IsList keyedList" "CompressEnabled PreferIntendedConfig"
    "Dir keyedList ! 0 \<in> set (Dir keyedList)" "Kind (Dir keyedList ! 0) = LeafRef"
    by (simp_all add: keyedList_def IsList_def)
  have f: "FindAllChildren keyedList PreferIntendedConfig
       = Some ([''name'' \<mapsto> Dir (Dir keyedList ! 1) ! 0], [])"
    by (simp add: keyedList_def resolver_defs)
  from leafref_key_suppressed_when_compressed [OF h] obtain m errs
    where "FindAllChildren keyedList PreferIntendedConfig = Some (m, errs)"
      and "Dir keyedList ! 0 \<notin> ran m"
    by blast
  then have "Dir keyedList ! 0 \<notin> ran (fst (the (FindAllChildren keyedList PreferIntendedConfig)))"
    by simp
  with h f show ?thesis by simp
qed

text \<open>
  C3 as stated also covers the uncompressed policies, and fails there:
  \<open>findAllChildrenWithoutCompression\<close> has no test for a leafref, so the key leaf
  \<open>name\<close> of the list is resolved like any other leaf.
\<close>

theorem leafref_key_kept_when_uncompressed:
  "IsList keyedList \<and> Kind (Dir keyedList ! 0) = LeafRef
   \<and> fst (the (FindAllChildren keyedList Uncompressed)) ''name'' = Some (Dir keyedList ! 0)
   \<and> FindAllChildren keyedList Uncompressed \<noteq> None"
  by (simp add: keyedList_def resolver_defs)

text \<open>
  C4, as amended. Under every compressed policy, in a well-formed tree, let \<open>c\<close> be a
  child container of the queried node \<open>e\<close> that is no config/state pair and whose
  declared children are exactly one List \<open>l\<close>. Then \<open>c\<close> itself never appears in the
  resolved child set. When the policy excludes state and \<open>e\<close>, \<open>c\<close> or \<open>l\<close> is
  effectively read-only, \<open>l\<close> does not appear either. Otherwise \<open>l\<close> is a candidate, and
  what becomes of it depends on the candidates before it: when none of them bears its
  name, \<open>l\<close> is the entry under its own name; when one does, the first of them stays the
  entry under that name, \<open>l\<close> is not the entry, and the error for the path of \<open>l\<close> is
  returned.
\<close>

theorem singleton_list_wrapper_unwrapped:
  assumes "wellFormed e" "CompressEnabled p" "c \<in> set (Dir e)" "IsContainer c"
    "\<not> IsConfigState c" "Dir c = [l]" "IsList l"
  shows "\<exists>m errs. FindAllChildren e p = Some (m, errs) \<and> c \<notin> ran m
           \<and> (if StateExcluded p \<and> (\<not> IsConfig e \<or> \<not> IsConfig c \<or> \<not> IsConfig l)
               then l \<notin> ran m
               else \<exists>before after.
                      candidates e p = before @ l # after \<and> l \<notin> set before
                      \<and> (if Name l \<in> Name ` set before
                          then m (Name l) = find (\<lambda>v. Name v = Name l) before
                               \<and> m (Name l) \<noteq> None \<and> m (Name l) \<noteq> Some l
                               \<and> Path l @ '' was duplicate'' \<in> set errs
                          else m (Name l) = Some l))"
proof -
  let ?x = "StateExcluded p" and ?de = "deprioData p" and ?pr = "prioData p"
  let ?cs = "candidates e p"
  have wfc: "wellFormed c" and pc: "Parents c = (Name e, Config e) # Parents e"
    using wellFormed_child [OF assms(1,3)] by simp_all
  have pl: "Parents l = (Name c, Config c) # Parents c"
    using wellFormed_child [OF wfc, of l] assms(6) by simp
  have dir: "IsDir c" and kinds: "c \<noteq> l"
    using assms(4,7) by (auto simp: IsDir_def IsContainer_def IsList_def)
  have own: "childCands e ?x ?de c pn =
               (if ?x \<and> (\<not> IsConfig c \<or> \<not> IsConfig l) then [] else [l])" for pn
    using assms(5,6,7) dir by (auto simp: childCands_def Children_def)
  have no_c: "c \<notin> set ?cs"
  proof
    assume "c \<in> set ?cs"
    from candidates_compressed_member [OF assms(2) this] obtain c' pn
      where c': "c' \<in> set (Dir e)" and in': "c \<in> set (childCands e ?x ?de c' pn)"
      by blast
    from wellFormed_child [OF assms(1) c'] have "wellFormed c'" by simp
    from childCands_below [OF this in'] have "c = c'"
      using child_not_below_sibling [OF assms(1,3) c'] by blast
    with in' own kinds show False by (simp split: if_splits)
  qed
  have no_l: "l \<notin> set ?cs" if skip: "?x \<and> (\<not> IsConfig e \<or> \<not> IsConfig c \<or> \<not> IsConfig l)"
  proof (cases "IsConfig e")
    case False
    with skip show ?thesis by (simp add: candidates_def)
  next
    case True
    show ?thesis
    proof
      assume "l \<in> set ?cs"
      from candidates_compressed_member [OF assms(2) this] obtain c' pn
        where c': "c' \<in> set (Dir e)" and in': "l \<in> set (childCands e ?x ?de c' pn)"
        by blast
      from wellFormed_child [OF assms(1) c']
      have wf': "wellFormed c'" and pc': "Parents c' = (Name e, Config e) # Parents e"
        by simp_all
      from childCands_below [OF wf' in']
      consider "l = c'" | qs where "Parents l = qs @ (Name c', Config c') # Parents c'"
        by blast
      then show False
      proof cases
        case 1
        with pl pc pc' show False by simp
      next
        case 2
        with pl pc pc' have "length qs = 0" by (metis add_cancel_left_left length_append list.size(4))
        with 2 pl have "Name c = Name c'" by simp
        with distinct_name_eq [OF wellFormed_distinct [OF assms(1)] assms(3) c']
        have "c = c'" by simp
        with in' own skip True show False by (simp split: if_splits)
      qed
    qed
  qed
  have has_l: "l \<in> set ?cs" if keep: "\<not> (?x \<and> (\<not> IsConfig e \<or> \<not> IsConfig c \<or> \<not> IsConfig l))"
  proof -
    have "Name c \<noteq> ?pr"
      using assms(4,5) prioData_cases [of p] by (auto simp: IsConfigState_def)
    from scheduled_other [OF wellFormed_distinct [OF assms(1)] assms(3) this]
    have "c \<in> set (scheduled e ?pr)" .
    moreover have "l \<in> set (childCands e ?x ?de c pn)" for pn
      using own keep by auto
    ultimately have "l \<in> set (loopCands e ?x ?pr ?de (scheduled e ?pr) {})"
      by (rule loopCands_from_child)
    with keep assms(2) show ?thesis by (auto simp: candidates_def)
  qed
  have placed: "\<exists>before after.
      ?cs = before @ l # after \<and> l \<notin> set before
      \<and> (if Name l \<in> Name ` set before
          then firstWins ?cs (Name l) = find (\<lambda>v. Name v = Name l) before
               \<and> firstWins ?cs (Name l) \<noteq> None \<and> firstWins ?cs (Name l) \<noteq> Some l
               \<and> Path l @ '' was duplicate'' \<in> set (map duplicateError (losersFrom {} ?cs))
          else firstWins ?cs (Name l) = Some l)"
    if keep: "\<not> (?x \<and> (\<not> IsConfig e \<or> \<not> IsConfig c \<or> \<not> IsConfig l))"
  proof -
    from split_list_first [OF has_l [OF keep]] obtain before after
      where cs: "?cs = before @ l # after" and first: "l \<notin> set before"
      by blast
    show ?thesis
    proof (cases "Name l \<in> Name ` set before")
      case True
      then obtain w where w: "firstWins before (Name l) = Some w"
        using firstWins_None [of before "Name l"] by (cases "firstWins before (Name l)") auto
      with firstWins_Some [OF w] first have "w \<noteq> l" by blast
      moreover have "firstWins ?cs (Name l) = Some w"
        by (simp add: cs firstWins_append w)
      moreover have "l \<in> set (losersFrom {} ?cs)"
        unfolding cs using True by (intro loser_after) simp
      then have "duplicateError l \<in> set (map duplicateError (losersFrom {} ?cs))"
        by simp
      ultimately show ?thesis
        using True cs first w
        by (intro exI [of _ before] exI [of _ after])
           (simp add: duplicateError_def firstWins_def)
    next
      case False
      then have "firstWins before (Name l) = None"
        by (simp add: firstWins_None)
      then have "firstWins ?cs (Name l) = Some l"
        by (simp add: cs firstWins_append) (simp add: firstWins_def)
      with False cs first show ?thesis
        by (intro exI [of _ before] exI [of _ after]) simp
    qed
  qed
  have "c \<notin> ran (firstWins ?cs)"
    using no_c by (blast dest: firstWins_ran)
  moreover have "l \<notin> ran (firstWins ?cs)"
    if "?x \<and> (\<not> IsConfig e \<or> \<not> IsConfig c \<or> \<not> IsConfig l)"
    using no_l [OF that] by (blast dest: firstWins_ran)
  ultimately show ?thesis
    using placed by (simp add: FindAllChildren_spec)
qed


theorem singleton_list_wrapper_unwrapped_witness:
  "wellFormed wrappedList \<and> CompressEnabled PreferIntendedConfig
   \<and> Dir wrappedList ! 0 \<in> set (Dir wrappedList)
   \<and> IsContainer (Dir wrappedList ! 0) \<and> \<not> IsConfigState (Dir wrappedList ! 0)
   \<and> Dir (Dir wrappedList ! 0) = [Dir (Dir wrappedList ! 0) ! 0]
   \<and> IsList (Dir (Dir wrappedList ! 0) ! 0)
   \<and> FindAllChildren wrappedList PreferIntendedConfig
       = Some ([''subinterface'' \<mapsto> Dir (Dir wrappedList ! 0) ! 0], [])
   \<and> Dir wrappedList ! 0 \<notin> ran (fst (the (FindAllChildren wrappedList PreferIntendedConfig)))"
proof -
  have h: "wellFormed wrappedList" "CompressEnabled PreferIntendedConfig"
    "Dir wrappedList ! 0 \<in> set (Dir wrappedList)"
    "IsContainer (Dir wrappedList ! 0)" "\<not> IsConfigState (Dir wrappedList ! 0)"
    "Dir (Dir wrappedList ! 0) = [Dir (Dir wrappedList ! 0) ! 0]"
    "IsList (Dir (Dir wrappedList ! 0) ! 0)"
    by (simp_all add: wrappedList_def IsList_def IsContainer_def IsConfigState_def)
  have f: "FindAllChildren wrappedList PreferIntendedConfig
       = Some ([''subinterface'' \<mapsto> Dir (Dir wrappedList ! 0) ! 0], [])"
    by (simp add: wrappedList_def resolver_defs)
  from singleton_list_wrapper_unwrapped [OF h] obtain m errs
    where "FindAllChildren wrappedList PreferIntendedConfig = Some (m, errs)"
      and "Dir wrappedList ! 0 \<notin> ran m"
    by blast
  then have "Dir wrappedList ! 0 \<notin> ran (fst (the (FindAllChildren wrappedList PreferIntendedConfig)))"
    by simp
  with h f show ?thesis by simp
qed

text \<open>
  C4 as stated promises the List under its own name whenever it is not excluded. That
  fails when an earlier candidate bears the name: the leaf \<open>subinterface\<close> is declared
  before the container \<open>subinterfaces\<close>, so the guard keeps the leaf and reports the list.
\<close>

theorem singleton_list_loses_name_clash:
  "IsContainer (Dir clashTree ! 1) \<and> \<not> IsConfigState (Dir clashTree ! 1)
   \<and> Dir (Dir clashTree ! 1) = [Dir (Dir clashTree ! 1) ! 0]
   \<and> IsList (Dir (Dir clashTree ! 1) ! 0)
   \<and> IsConfig (Dir (Dir clashTree ! 1) ! 0)
   \<and> FindAllChildren clashTree PreferIntendedConfig \<noteq> None
   \<and> fst (the (FindAllChildren clashTree PreferIntendedConfig))
        (Name (Dir (Dir clashTree ! 1) ! 0)) \<noteq> Some (Dir (Dir clashTree ! 1) ! 0)"
  by (simp add: clashTree_def resolver_defs)

text \<open>
  C5. Visibility inheritance: when the policy excludes state and the node is effectively
  read-only, the resolver returns the empty mapping and no error, whatever the node's
  declared children are.
\<close>

theorem readonly_node_has_no_children:
  "\<not> IsConfig e \<Longrightarrow> StateExcluded p \<Longrightarrow> FindAllChildren e p = Some (Map.empty, [])"
  by (cases p) (simp_all add: FindAllChildren_def)

theorem readonly_node_has_no_children_witness:
  "\<not> IsConfig stateContainer \<and> StateExcluded ExcludeDerivedState
   \<and> Dir stateContainer \<noteq> []
   \<and> FindAllChildren stateContainer ExcludeDerivedState = Some (Map.empty, [])"
  using readonly_node_has_no_children [of stateContainer ExcludeDerivedState]
  by (simp add: IsConfig_def stateContainer_def)

text \<open>
  C6. Wrapper transparency: the child mapping that \<open>FindAllChildren\<close> returns holds no
  Choice and no Case node, for every node and every policy; the flattener
  \<open>FindFirstNonChoiceOrCase\<close> yields none, and \<open>addNonChoiceChildren\<close> adds none to a
  mapping that has none.
\<close>

theorem no_choice_or_case_in_result:
  "(\<exists>m errs. FindAllChildren e p = Some (m, errs) \<and> (\<forall>v \<in> ran m. \<not> IsChoiceOrCase v))
   \<and> (\<forall>n \<in> set (FindFirstNonChoiceOrCase w). \<not> IsChoiceOrCase n)
   \<and> ((\<forall>v \<in> ran m0. \<not> IsChoiceOrCase v) \<longrightarrow>
        (\<forall>v \<in> ran (fst (addNonChoiceChildren m0 w errs0)). \<not> IsChoiceOrCase v))"
proof (intro conjI)
  show "\<exists>m errs. FindAllChildren e p = Some (m, errs) \<and> (\<forall>v \<in> ran m. \<not> IsChoiceOrCase v)"
    using FindAllChildren_spec [of e p]
    by (auto dest!: firstWins_ran dest: candidates_not_wrapper)
  show "\<forall>n \<in> set (FindFirstNonChoiceOrCase w). \<not> IsChoiceOrCase n"
    by (auto dest: FindFirst_not_wrapper)
  show "(\<forall>v \<in> ran m0. \<not> IsChoiceOrCase v) \<longrightarrow>
        (\<forall>v \<in> ran (fst (addNonChoiceChildren m0 w errs0)). \<not> IsChoiceOrCase v)"
    by (auto simp: addNonChoiceChildren_guardAll guardAll_char ran_def
             dest!: firstWins_Some dest: FindFirst_not_wrapper split: option.splits)
qed

theorem no_choice_or_case_in_result_witness:
  "FindAllChildren policyTree PreferIntendedConfig \<noteq> None
   \<and> Dir (Dir (Dir policyTree ! 0) ! 0) ! 0
       \<in> ran (fst (the (FindAllChildren policyTree PreferIntendedConfig)))
   \<and> \<not> IsChoiceOrCase (Dir (Dir (Dir policyTree ! 0) ! 0) ! 0)
   \<and> Dir (Dir (Dir policyTree ! 0) ! 0) ! 0 \<in> set (FindFirstNonChoiceOrCase (Dir policyTree ! 0))
   \<and> fst (addNonChoiceChildren Map.empty (Dir policyTree ! 0) []) ''reject-route''
       = Some (Dir (Dir (Dir policyTree ! 0) ! 1) ! 0)"
  using no_choice_or_case_in_result
    [of policyTree PreferIntendedConfig "Dir policyTree ! 0" Map.empty "[]"]
  by (simp add: policyTree_def resolver_defs)

text \<open>
  C7. The duplicate guard called with a name that is already in the mapping leaves the
  mapping as it is and appends one error, the path of the offending node followed by
  " was duplicate". Resolution goes on after it: \<open>FindAllChildren\<close> returns the
  first-writer-wins mapping of all its candidates together with one error for every
  candidate whose name was taken before it, in the order of the candidates.
\<close>

theorem duplicate_guard_accumulates:
  "(m k \<noteq> None \<longrightarrow> addNewChild m k v errs = (m, errs @ [Path v @ '' was duplicate'']))
   \<and> FindAllChildren e p =
       Some (firstWins (candidates e p),
             map (\<lambda>v. Path v @ '' was duplicate'') (losersFrom {} (candidates e p)))"
  using FindAllChildren_spec [of e p]
  by (auto simp: addNewChild_def duplicateError_def [abs_def])


theorem duplicate_guard_accumulates_witness:
  "[''subinterface'' \<mapsto> Dir clashTree ! 0] ''subinterface'' \<noteq> None
   \<and> addNewChild [''subinterface'' \<mapsto> Dir clashTree ! 0] ''subinterface''
        (Dir (Dir clashTree ! 1) ! 0) []
      = ([''subinterface'' \<mapsto> Dir clashTree ! 0],
         [''/interface/subinterfaces/subinterface was duplicate''])
   \<and> FindAllChildren clashTree PreferIntendedConfig
      = Some ([''subinterface'' \<mapsto> Dir clashTree ! 0],
              [''/interface/subinterfaces/subinterface was duplicate''])"
proof -
  let ?m = "[''subinterface'' \<mapsto> Dir clashTree ! 0]"
  let ?v = "Dir (Dir clashTree ! 1) ! 0"
  have h: "?m ''subinterface'' \<noteq> None" by simp
  have a: "addNewChild ?m ''subinterface'' ?v [] = (?m, [] @ [Path ?v @ '' was duplicate''])"
    using duplicate_guard_accumulates
      [of ?m "''subinterface''" ?v "[]" clashTree PreferIntendedConfig] h
    by blast
  have p: "Path ?v = ''/interface/subinterfaces/subinterface''"
    by (simp add: Path_def clashTree_def)
  have f: "FindAllChildren clashTree PreferIntendedConfig
      = Some (?m, [''/interface/subinterfaces/subinterface was duplicate''])"
    by (simp add: clashTree_def resolver_defs)
  show ?thesis using h a p f by simp
qed




text \<open>
  C9. \<open>TranslateToCompressBehaviour\<close> is the table (true,true) to ExcludeDerivedState,
  (true,false) to PreferIntendedConfig, (false,true) to UncompressedExcludeDerivedState,
  (false,false) to Uncompressed; \<open>CompressEnabled\<close> is false exactly for the two
  uncompressed values, and \<open>StateExcluded\<close> is true exactly for
  UncompressedExcludeDerivedState and ExcludeDerivedState.
\<close>

theorem translate_policy_table:
  "TranslateToCompressBehaviour True True = ExcludeDerivedState
   \<and> TranslateToCompressBehaviour True False = PreferIntendedConfig
   \<and> TranslateToCompressBehaviour False True = UncompressedExcludeDerivedState
   \<and> TranslateToCompressBehaviour False False = Uncompressed
   \<and> (\<not> CompressEnabled p) = (p = Uncompressed \<or> p = UncompressedExcludeDerivedState)
   \<and> StateExcluded p = (p = UncompressedExcludeDerivedState \<or> p = ExcludeDerivedState)"
  by (cases p) (simp_all add: TranslateToCompressBehaviour_def)

text \<open>
  C10. Under a compressed policy, when the queried node is neither a Container nor a List,
  a declared child that bears the priority name ("config" under PreferIntendedConfig and
  ExcludeDerivedState, "state" under PreferOperationalState) is dropped: its name is not
  among the names the main loop processes, and the call returns the same mapping and the
  same errors as for the node without that child.
\<close>

theorem priority_child_dropped_under_wrapper:
  assumes "CompressEnabled p" "\<not> IsContainer e" "\<not> IsList e"
  shows "prioData p \<notin> set (orderedChildNames e (prioData p))
         \<and> FindAllChildren (withoutChild (prioData p) e) p = FindAllChildren e p"
  using assms
  by (auto simp: FindAllChildren_char candidates_withoutChild orderedChildNames_wrapper)

theorem priority_child_dropped_under_wrapper_witness:
  "CompressEnabled PreferIntendedConfig \<and> \<not> IsContainer caseNode \<and> \<not> IsList caseNode
   \<and> DirAt caseNode ''config'' = Some (Dir caseNode ! 0)
   \<and> FindAllChildren (withoutChild ''config'' caseNode) PreferIntendedConfig
       = FindAllChildren caseNode PreferIntendedConfig
   \<and> FindAllChildren caseNode PreferIntendedConfig
       = Some ([''hits'' \<mapsto> Dir (Dir caseNode ! 1) ! 0], [])"
proof -
  have h: "CompressEnabled PreferIntendedConfig" "\<not> IsContainer caseNode" "\<not> IsList caseNode"
    by (simp_all add: caseNode_def IsContainer_def IsList_def)
  have f: "FindAllChildren caseNode PreferIntendedConfig
       = Some ([''hits'' \<mapsto> Dir (Dir caseNode ! 1) ! 0], [])"
    by (simp add: caseNode_def resolver_defs)
  have d: "DirAt caseNode ''config'' = Some (Dir caseNode ! 0)"
    by (simp add: caseNode_def DirAt_def)
  show ?thesis
    using priority_child_dropped_under_wrapper [OF h] h f d
    by (simp add: prioData_def)
qed

end
